theory Spec2Isabelle
  imports Complex_Main "HOL-Library.Word" "HOL-Library.Multiset"
begin

section \<open>Data model\<close>

text \<open>
  A byte is an 8-bit word. What Python sees when it iterates over a \<open>bytes\<close> object
  (or over the content of a section) is the integer \<open>uint b\<close> in \<open>range(256)\<close>.
  Python's unbounded integers are \<open>int\<close>; numpy's and Python's floats are idealised
  as \<open>real\<close>, so rounding is outside this development.
\<close>

type_synonym byte = "8 word"

datatype error = ZeroDivisionError | ValueError | StatisticsError

text \<open>A section of the parsed executable: its name and its raw content.\<close>

record pe_section =
  name :: string
  content :: "byte list"

text \<open>
  The tracked byte groups (\<open>ibytes\<close>): a dictionary from a label to a list of byte
  values, kept as the list of its items in iteration order. The keys of a dictionary
  are distinct.
\<close>

type_synonym ibytes = "(string \<times> int list) list"

section \<open>Helper functions\<close>

text \<open>
  \<open>np.unique(ar, return_counts=True)\<close>: the sorted distinct elements of the array,
  and for each of them the number of times it occurs.
\<close>

definition np_unique :: "'a::linorder list \<Rightarrow> 'a list \<times> nat list" where
  "np_unique ar =
     (let u = remdups_adj (sort ar)
      in (u, map (count_list ar) u))"

text \<open>
  \<open>shannon_ent(labels, base=256)\<close>. The second argument is \<open>Some b\<close> for a given base
  and \<open>None\<close> for Python's \<open>None\<close> (base \<open>e\<close>); every caller in the program relies on
  the default, \<open>Some 256\<close>. On an empty array every numpy operation here works on an
  empty array and the final sum is 0: nothing is divided.
\<close>

definition shannon_ent :: "'a::linorder list \<Rightarrow> real option \<Rightarrow> real" where
  "shannon_ent labels base =
     (let (value, counts) = np_unique labels;
          norm_counts = map (\<lambda>c. real c / real (sum_list counts)) counts;
          base = (case base of None \<Rightarrow> exp 1 | Some b \<Rightarrow> b)
      in - sum_list (map (\<lambda>p. p * ln p / ln base) norm_counts))"

text \<open>
  \<open>statistics.median(data)\<close>: the middle element of the sorted data, the mean of the two
  middle elements when their number is even, and StatisticsError when there is none.
\<close>

definition median :: "real list \<Rightarrow> error + real" where
  "median data =
     (let data = sort data; n = length data in
      if n = 0 then Inl StatisticsError
      else if n mod 2 = 1 then Inr (data ! (n div 2))
      else let i = n div 2 in Inr ((data ! (i - 1) + data ! i) / 2))"

text \<open>
  \<open>fh.read(n)\<close> on a file opened with \<open>open(binname, 'rb')\<close>; the file handle is the
  list of the bytes not read yet. The result is the bytes read and the new handle.
  A buffered reader reads to the end of the file for \<open>-1\<close> and raises ValueError
  for a size below \<open>-1\<close>.
\<close>

definition fh_read :: "byte list \<Rightarrow> int \<Rightarrow> error + (byte list \<times> byte list)" where
  "fh_read fh n =
     (if n < - 1 then Inl ValueError
      else if n = - 1 then Inr (fh, [])
      else Inr (take (nat n) fh, drop (nat n) fh))"

text \<open>
  \<open>get_chunk(fh, chunksize)\<close>: the generator, as the list of the chunks it yields.
  It stops at the first empty read.
\<close>

function get_chunk :: "byte list \<Rightarrow> int \<Rightarrow> error + byte list list" where
  "get_chunk fh chunksize =
     (case fh_read fh chunksize of
        Inl e \<Rightarrow> Inl e
      | Inr (chunk, fh') \<Rightarrow>
          if chunk \<noteq> [] then
            (case get_chunk fh' chunksize of
               Inl e \<Rightarrow> Inl e
             | Inr rest \<Rightarrow> Inr (chunk # rest))
          else Inr [])"
  by pat_completeness auto
termination
  by (relation "measure (\<lambda>(fh, n). length fh)") (auto simp: fh_read_def split: if_splits)

declare get_chunk.simps [simp del]

text \<open>
  \<open>Counter(xs)[b]\<close>: the number of elements of \<open>xs\<close> equal to the integer \<open>b\<close>,
  0 for a key that is missing.
\<close>

definition Counter :: "byte list \<Rightarrow> int \<Rightarrow> nat" where
  "Counter xs b = count_list (map uint xs) b"

text \<open>
  \<open>xs[start:stop]\<close> for integers \<open>start\<close> and \<open>stop\<close>: a negative index counts from
  the end, and both are clipped to the list.
\<close>

definition py_slice :: "'a list \<Rightarrow> int \<Rightarrow> int \<Rightarrow> 'a list" where
  "py_slice xs start stop =
     (let n = int (length xs);
          lo = (if start < 0 then max (start + n) 0 else min start n);
          hi = (if stop < 0 then max (stop + n) 0 else min stop n)
      in take (nat (hi - lo)) (drop (nat lo) xs))"

section \<open>Entropy per section\<close>

text \<open>
  The \<open>while\<close> loop of \<open>section_ent_line\<close> for one section. Its state is \<open>i\<close>,
  \<open>prev_end\<close>, \<open>prev_ent\<close> and \<open>shannon_samples\<close>. The loop need not end (a negative
  \<open>block_len\<close> never lets \<open>prev_end\<close> pass the length), so not returning is \<open>None\<close>.
\<close>

partial_function (option) section_ent_loop ::
  "byte list \<Rightarrow> int \<Rightarrow> int \<Rightarrow> int \<Rightarrow> real \<Rightarrow> real list \<Rightarrow> (error + real list) option" where
  "section_ent_loop data block_len i prev_end prev_ent shannon_samples =
     (if prev_end \<le> int (length data) then
        let block_start = prev_end;
            block_end = i * block_len;
            real_ent = shannon_ent (py_slice data block_start block_end) (Some 256)
        in (case median [real_ent, prev_ent] of
              Inl e \<Rightarrow> Some (Inl e)
            | Inr ent \<Rightarrow>
                section_ent_loop data block_len (i + 1) (block_end + 1) real_ent
                  (shannon_samples @ [ent]))
      else Some (Inr shannon_samples))"

text \<open>The body of the \<open>for\<close> loop of \<open>section_ent_line\<close>: the samples of one section.\<close>

definition section_ent_samples :: "pe_section \<Rightarrow> int \<Rightarrow> (error + real list) option" where
  "section_ent_samples section block_size =
     (if block_size = 0 then Some (Inl ZeroDivisionError)
      else
        let block_len = - (- int (length (content section)) div block_size)
        in section_ent_loop (content section) block_len 1 0 0 [])"

text \<open>
  \<open>section_ent_line(pebin, block_size)\<close>: the sample series that is plotted for each
  section of \<open>pebin.sections\<close>, in order. The colours, the plot and the optional
  trend curve that is fitted to the samples are outside the model.
\<close>

fun section_ent_line :: "pe_section list \<Rightarrow> int \<Rightarrow> (error + real list list) option" where
  "section_ent_line [] block_size = Some (Inr [])"
| "section_ent_line (section # sections) block_size =
     (case section_ent_samples section block_size of
        None \<Rightarrow> None
      | Some (Inl e) \<Rightarrow> Some (Inl e)
      | Some (Inr shannon_samples) \<Rightarrow>
          (case section_ent_line sections block_size of
             None \<Rightarrow> None
           | Some (Inl e) \<Rightarrow> Some (Inl e)
           | Some (Inr rest) \<Rightarrow> Some (Inr (shannon_samples # rest))))"

section \<open>Byte histograms\<close>

text \<open>
  The two rows \<open>bin_hist\<close> draws for the bytes of a file: \<open>ordered_row\<close>, indexed by
  byte value, and \<open>sorted_row\<close> (only when \<open>ordered\<close> is set), sorted and reversed.
\<close>

definition bin_hist :: "byte list \<Rightarrow> bool \<Rightarrow> bool \<Rightarrow> nat list \<times> nat list option" where
  "bin_hist file_array ignore_0 ordered =
     (let ignore_0 = (if ignore_0 then 1 else 0 :: int);
          c = Counter file_array;
          ordered_row = map c [ignore_0..255]
      in (ordered_row,
          if ordered then
            let c = Counter file_array;
                sorted_row = map c [ignore_0..255]
            in Some (rev (sort sorted_row))
          else None))"

text \<open>The same two rows, for every section of \<open>pebin.sections\<close>.\<close>

definition section_byte_occurance_histogram ::
  "pe_section list \<Rightarrow> bool \<Rightarrow> bool \<Rightarrow> (nat list \<times> nat list option) list" where
  "section_byte_occurance_histogram sections ignore_0 ordered =
     (let ignore_0 = (if ignore_0 then 1 else 0 :: int) in
      map (\<lambda>section.
        let c = Counter (content section);
            ordered_row = map c [ignore_0..255]
        in (ordered_row,
            if ordered then
              let c = Counter (content section);
                  sorted_row = map c [ignore_0..255]
              in Some (rev (sort sorted_row))
            else None)) sections)"

section \<open>Entropy and byte occurrence over the whole file\<close>

text \<open>The state of the loop of \<open>bin_ent\<close> over the chunks.\<close>

record bin_ent_state =
  prev_ent :: real
  shannon_samples :: "real list"
  byte_ranges :: "(string \<times> real list) list"

text \<open>\<open>byte_ranges[label].append(v)\<close>.\<close>

fun append_entry :: "string \<Rightarrow> real \<Rightarrow> (string \<times> real list) list \<Rightarrow> (string \<times> real list) list" where
  "append_entry label v [] = []"
| "append_entry label v ((k, series) # rest) =
     (if k = label then (k, series @ [v]) # rest else (k, series) # append_entry label v rest)"

text \<open>The percentage of one tracked group in one chunk: the inner loop over \<open>b_range\<close>.\<close>

definition ibytes_percentage :: "byte list \<Rightarrow> int list \<Rightarrow> real" where
  "ibytes_percentage chunk b_range =
     (let cbytes = Counter chunk;
          occurance = fold (\<lambda>b occurance. occurance + cbytes b) b_range 0
      in (real occurance / real (length chunk)) * 100)"

text \<open>The body of the loop of \<open>bin_ent\<close> for one chunk.\<close>

definition bin_ent_step :: "ibytes \<Rightarrow> byte list \<Rightarrow> bin_ent_state \<Rightarrow> error + bin_ent_state" where
  "bin_ent_step ibytes chunk st =
     (let real_ent = shannon_ent chunk (Some 256) in
      case median [real_ent, prev_ent st] of
        Inl e \<Rightarrow> Inl e
      | Inr ent \<Rightarrow>
          let prev_ent' = real_ent;
              ent = real_ent;
              st = st\<lparr>prev_ent := prev_ent', shannon_samples := shannon_samples st @ [ent]\<rparr>
          in if length ibytes > 0 then
               Inr (st\<lparr>byte_ranges :=
                      fold (\<lambda>(label, b_range) byte_ranges.
                              append_entry label (ibytes_percentage chunk b_range) byte_ranges)
                        ibytes (byte_ranges st)\<rparr>)
             else Inr st)"

fun bin_ent_loop :: "ibytes \<Rightarrow> byte list list \<Rightarrow> bin_ent_state \<Rightarrow> error + bin_ent_state" where
  "bin_ent_loop ibytes [] st = Inr st"
| "bin_ent_loop ibytes (chunk # chunks) st =
     (case bin_ent_step ibytes chunk st of
        Inl e \<Rightarrow> Inl e
      | Inr st' \<Rightarrow> bin_ent_loop ibytes chunks st')"

text \<open>
  \<open>bin_ent(binname, chunks, ibytes)\<close> on a file whose bytes are \<open>fh\<close>: the entropy
  samples and the percentage series that are handed to the plot.
\<close>

definition bin_ent ::
  "byte list \<Rightarrow> int \<Rightarrow> ibytes \<Rightarrow> error + (real list \<times> (string \<times> real list) list)" where
  "bin_ent fh chunks ibytes =
     (if chunks = 0 then Inl ZeroDivisionError
      else
        let fs = int (length fh);
            chunksize = - (- fs div chunks);
            ranges = (if length ibytes > 0 then map (\<lambda>(key, _). (key, [])) ibytes else [])
        in case get_chunk fh chunksize of
             Inl e \<Rightarrow> Inl e
           | Inr cs \<Rightarrow>
               (case bin_ent_loop ibytes cs
                       \<lparr>prev_ent = 0, shannon_samples = [], byte_ranges = ranges\<rparr> of
                  Inl e \<Rightarrow> Inl e
                | Inr st \<Rightarrow> Inr (shannon_samples st, byte_ranges st)))"

section \<open>Notions used to state the properties\<close>

text \<open>
  The term of the entropy sum for a value that occurs \<open>c\<close> times among \<open>n\<close> labels:
  \<open>p * ln p\<close> for \<open>p = c / n\<close>.
\<close>

definition plogp :: "nat \<Rightarrow> nat \<Rightarrow> real" where
  "plogp n c = (real c / real n) * ln (real c / real n)"

text \<open>
  The block partitioning of a section as the specification words it. Blocks are counted
  from 0 here (the loop index is \<open>i = k + 1\<close>): a block starts where the previous one
  ended plus one, the first at 0, and ends at \<open>i * block_len\<close>.
\<close>

definition block_start :: "int \<Rightarrow> nat \<Rightarrow> int" where
  "block_start block_len k = (if k = 0 then 0 else int k * block_len + 1)"

definition block_end :: "int \<Rightarrow> nat \<Rightarrow> int" where
  "block_end block_len k = (int k + 1) * block_len"

text \<open>
  The bytes of block \<open>k\<close>: those at the indices from \<open>block_start\<close> up to, and not
  including, \<open>block_end\<close>, as far as the data reaches. The byte at index \<open>block_end\<close>
  belongs to no block: the next block starts one further.
\<close>

definition block_bytes :: "byte list \<Rightarrow> int \<Rightarrow> nat \<Rightarrow> byte list" where
  "block_bytes data block_len k =
     take (nat (block_end block_len k) - nat (block_start block_len k))
       (drop (nat (block_start block_len k)) data)"

definition block_raw_ent :: "byte list \<Rightarrow> int \<Rightarrow> nat \<Rightarrow> real" where
  "block_raw_ent data block_len k = shannon_ent (block_bytes data block_len k) (Some 256)"

text \<open>
  A sample series is the block profile of \<open>data\<close>: there is one sample for each block
  that starts at or before the length of the data, the next block would start after
  it, and each sample is the median of the raw entropy of its block and the raw
  entropy of the block before (0 before the first block).
\<close>

definition block_profile :: "byte list \<Rightarrow> int \<Rightarrow> real list \<Rightarrow> bool" where
  "block_profile data block_len samples \<longleftrightarrow>
     int (length data) < block_start block_len (length samples) \<and>
     (\<forall>k\<in>{0..<length samples}.
         block_start block_len k \<le> int (length data) \<and>
         median [block_raw_ent data block_len k,
                 if k = 0 then 0 else block_raw_ent data block_len (k - 1)]
           = Inr (samples ! k))"

text \<open>
  The rank-ordered histogram of a byte sequence over all 256 values: the \<open>sorted_row\<close>
  of \<open>bin_hist\<close> with zero included.
\<close>

definition rank_counts :: "byte list \<Rightarrow> nat list" where
  "rank_counts xs = rev (sort (map (Counter xs) [0..255]))"

text \<open>
  Majorisation of count distributions: \<open>majorized_by xs ys\<close> says that the sequences
  have the same length and that, for every \<open>k\<close>, the \<open>k\<close> largest counts of \<open>xs\<close> sum
  to no more than the \<open>k\<close> largest counts of \<open>ys\<close>: the distribution of \<open>xs\<close> is the
  more uniform one, that of \<open>ys\<close> the more skewed one.
\<close>

definition majorized_by :: "byte list \<Rightarrow> byte list \<Rightarrow> bool" where
  "majorized_by xs ys \<longleftrightarrow>
     length xs = length ys \<and>
     (\<forall>k\<in>{0..256}. sum_list (take k (rank_counts xs)) \<le> sum_list (take k (rank_counts ys)))"

text \<open>
  The slope of a supporting line of \<open>p * ln p\<close> at the count \<open>a\<close> among \<open>n\<close>: the
  derivative at \<open>a / n\<close> for a positive count, and at 0 a slope below all of these
  that still supports the function at every other count.
\<close>

definition slope :: "nat \<Rightarrow> nat \<Rightarrow> real" where
  "slope n a = (if a = 0 then - ln (real n) / real n else (ln (real a / real n) + 1) / real n)"

section \<open>The entropy as a sum over the values that occur\<close>

lemma distinct_remdups_adj_sorted:
  "sorted xs \<Longrightarrow> distinct (remdups_adj xs)"
proof (induction xs rule: remdups_adj.induct)
  case (3 x y xs)
  show ?case
  proof (cases "x = y")
    case True
    with 3 show ?thesis by simp
  next
    case False
    from "3.prems" have "x \<le> y" and "\<forall>z\<in>set xs. y \<le> z" and "sorted (y # xs)" by auto
    with False have "x \<notin> set (y # xs)" by auto
    moreover have "remdups_adj (x # y # xs) = x # remdups_adj (y # xs)"
      using False by simp
    moreover have "set (remdups_adj (y # xs)) = set (y # xs)"
      by (rule remdups_adj_set)
    moreover have "distinct (remdups_adj (y # xs))"
      using 3 False \<open>sorted (y # xs)\<close> by blast
    ultimately show ?thesis by (simp del: remdups_adj.simps)
  qed
qed simp_all

lemma np_unique_value:
  "distinct (fst (np_unique xs))" "set (fst (np_unique xs)) = set xs"
  by (simp_all add: np_unique_def Let_def distinct_remdups_adj_sorted)

lemma sum_list_counts:
  "sum_list (snd (np_unique xs)) = length xs"
proof -
  have "sum_list (snd (np_unique xs)) = sum (count_list xs) (set xs)"
    using np_unique_value [of xs]
    by (simp add: np_unique_def Let_def sum_list_distinct_conv_sum_set)
  then show ?thesis by (simp add: sum_count_set)
qed

lemma shannon_ent_sum:
  "shannon_ent xs (Some b) = - (\<Sum>v\<in>set xs. plogp (length xs) (count_list xs v)) / ln b"
proof -
  obtain u cs where u: "np_unique xs = (u, cs)" by (cases "np_unique xs")
  have d: "distinct u" and s: "set u = set xs" and cs: "cs = map (count_list xs) u"
    and len: "sum_list (map (count_list xs) u) = length xs"
    using np_unique_value [of xs] sum_list_counts [of xs] u by (auto simp: np_unique_def Let_def)
  have "shannon_ent xs (Some b) =
      - sum_list (map (\<lambda>v. plogp (length xs) (count_list xs v) / ln b) u)"
    using len by (simp add: shannon_ent_def u cs comp_def plogp_def)
  also have "\<dots> = - (\<Sum>v\<in>set xs. plogp (length xs) (count_list xs v) / ln b)"
    using d s by (simp add: sum_list_distinct_conv_sum_set)
  finally show ?thesis by (simp add: sum_divide_distrib)
qed

lemma count_pos: "v \<in> set xs \<Longrightarrow> 0 < count_list xs v"
  by (induction xs) auto

lemma sum_prob:
  assumes "xs \<noteq> []"
  shows "(\<Sum>v\<in>set xs. real (count_list xs v) / real (length xs)) = 1"
proof -
  have "(\<Sum>v\<in>set xs. real (count_list xs v)) = real (length xs)"
    using sum_count_set [of xs "set xs"] by (simp flip: of_nat_sum)
  then show ?thesis using assms by (simp flip: sum_divide_distrib)
qed

lemma plogp_nonpos: "c \<le> n \<Longrightarrow> plogp n c \<le> 0"
proof (cases "c = 0 \<or> n = 0")
  case True
  then show ?thesis by (auto simp: plogp_def)
next
  case False
  assume "c \<le> n"
  with False have "0 < real c / real n" "real c / real n \<le> 1" by auto
  then have "ln (real c / real n) \<le> 0" by simp
  with \<open>0 < real c / real n\<close> show ?thesis
    unfolding plogp_def by (intro mult_nonneg_nonpos) simp_all
qed

lemma entropy_sum_nonneg:
  "0 \<le> - (\<Sum>v\<in>set xs. plogp (length xs) (count_list xs v))"
proof -
  have "(\<Sum>v\<in>set xs. plogp (length xs) (count_list xs v)) \<le> 0"
    by (rule sum_nonpos) (simp add: plogp_nonpos count_le_length)
  then show ?thesis by simp
qed

text \<open>
  The entropy of a distribution on \<open>k\<close> values is at most \<open>ln k\<close>: termwise, from
  \<open>ln x \<le> x - 1\<close> at \<open>x = 1 / (p * k)\<close>.
\<close>

lemma plogp_gibbs:
  assumes "0 < c" "0 < n" "0 < k"
  shows "- plogp n c - (real c / real n) * ln (real k) \<le> 1 / real k - real c / real n"
proof -
  define p where "p = real c / real n"
  have p: "0 < p" using assms by (simp add: p_def)
  have k: "0 < real k" using assms by simp
  have "ln (1 / (p * real k)) \<le> 1 / (p * real k) - 1"
    using p k by (intro ln_le_minus_one) simp
  then have "p * ln (1 / (p * real k)) \<le> p * (1 / (p * real k) - 1)"
    using p by (simp add: mult_left_mono)
  also have "\<dots> = 1 / real k - p" using p k by (simp add: field_simps)
  finally have "p * ln (1 / (p * real k)) \<le> 1 / real k - p" .
  moreover have "ln (1 / (p * real k)) = - ln p - ln (real k)"
    using p k by (simp add: ln_div ln_mult)
  ultimately have "p * (- ln p - ln (real k)) \<le> 1 / real k - p" by simp
  moreover have "- plogp n c - p * ln (real k) = p * (- ln p - ln (real k))"
    by (simp add: plogp_def p_def algebra_simps)
  ultimately show ?thesis unfolding p_def by simp
qed

lemma entropy_sum_le_ln_card:
  assumes "xs \<noteq> []"
  shows "- (\<Sum>v\<in>set xs. plogp (length xs) (count_list xs v)) \<le> ln (real (card (set xs)))"
proof -
  let ?n = "length xs" and ?k = "card (set xs)"
  let ?p = "\<lambda>v. real (count_list xs v) / real ?n"
  have n: "0 < ?n" and k: "0 < ?k" using assms by (simp_all add: card_gt_0_iff)
  have "(\<Sum>v\<in>set xs. - plogp ?n (count_list xs v) - ?p v * ln (real ?k))
      \<le> (\<Sum>v\<in>set xs. 1 / real ?k - ?p v)"
    by (intro sum_mono plogp_gibbs count_pos n k)
  also have "\<dots> = 0"
    using k assms sum_prob [OF assms] by (simp add: sum_subtractf)
  finally have "(\<Sum>v\<in>set xs. - plogp ?n (count_list xs v)) - (\<Sum>v\<in>set xs. ?p v) * ln (real ?k) \<le> 0"
    by (simp add: sum_subtractf sum_distrib_right)
  then show ?thesis
    using sum_prob [OF assms] by (simp add: sum_negf)
qed

lemma card_set_bytes: "card (set (xs :: byte list)) \<le> 256"
proof -
  have "card (set xs) \<le> card (UNIV :: byte set)"
    by (rule card_mono) simp_all
  then show ?thesis by (simp add: card_word)
qed

lemma shannon_ent_range:
  fixes xs :: "byte list"
  assumes "xs \<noteq> []"
  shows "0 \<le> shannon_ent xs (Some 256) \<and> shannon_ent xs (Some 256) \<le> 1"
proof -
  define H where "H = - (\<Sum>v\<in>set xs. plogp (length xs) (count_list xs v))"
  have ln256: "0 < ln (256 :: real)" by simp
  have k: "0 < card (set xs)" using assms by (simp add: card_gt_0_iff)
  have "H \<le> ln (real (card (set xs)))"
    unfolding H_def by (rule entropy_sum_le_ln_card [OF assms])
  also have "\<dots> \<le> ln (256 :: real)"
    using k card_set_bytes [of xs] by simp
  finally have up: "H \<le> ln (256 :: real)" .
  have lo: "0 \<le> H" unfolding H_def by (rule entropy_sum_nonneg)
  have eq: "shannon_ent xs (Some 256) = H / ln 256" by (simp add: shannon_ent_sum H_def)
  from lo ln256 have "0 \<le> H / ln 256" by (intro divide_nonneg_pos)
  moreover from up ln256 have "H / ln 256 \<le> 1" by (simp add: pos_divide_le_eq)
  ultimately show ?thesis unfolding eq by simp
qed

lemma shannon_ent_replicate:
  fixes b :: byte
  assumes "1 \<le> n"
  shows "shannon_ent (replicate n b) (Some 256) = 0"
proof -
  have s: "set (replicate n b) = {b}" using assms by auto
  have c: "count_list (replicate n b) b = n" by (induction n) auto
  show ?thesis using assms by (simp add: shannon_ent_sum s c plogp_def)
qed

lemma uniform_set_length:
  fixes xs :: "byte list"
  assumes "xs \<noteq> []" and eq: "\<forall>v w. count_list xs v = count_list xs w"
  shows "set xs = UNIV" and "length xs = 256 * count_list xs 0" and "0 < count_list xs 0"
proof -
  from assms obtain x where "x \<in> set xs" by (cases xs) auto
  then have "0 < count_list xs x" by (rule count_pos)
  with eq have pos: "\<And>v. 0 < count_list xs v" by metis
  then show "0 < count_list xs 0" .
  from pos have "\<And>v. count_list xs v \<noteq> 0" by (metis less_numeral_extra(3))
  then show s: "set xs = UNIV" by (auto simp: count_list_0_iff)
  have "length xs = sum (count_list xs) UNIV"
    by (rule sum_count_set [symmetric]) simp_all
  also have "\<dots> = sum (\<lambda>v. count_list xs 0) (UNIV :: byte set)"
    using eq by (intro sum.cong refl) blast
  also have "\<dots> = 256 * count_list xs 0" by (simp add: card_word)
  finally show "length xs = 256 * count_list xs 0" .
qed

lemma shannon_ent_uniform:
  fixes xs :: "byte list"
  assumes "xs \<noteq> []" and eq: "\<forall>v w. count_list xs v = count_list xs w"
  shows "shannon_ent xs (Some 256) = 1"
proof -
  let ?m = "count_list xs 0"
  note u = uniform_set_length [OF assms]
  have m: "0 < real ?m" using u(3) by simp
  have p: "plogp (length xs) (count_list xs v) = (1 / 256) * ln (1 / 256)" for v
  proof -
    have "count_list xs v = ?m" using eq by blast
    moreover have "real ?m / real (256 * ?m) = 1 / 256" using m by simp
    ultimately show ?thesis by (simp only: plogp_def u(2))
  qed
  have "(\<Sum>v\<in>set xs. plogp (length xs) (count_list xs v)) = ln (1 / 256)"
    by (simp add: p u(1) card_word)
  also have "\<dots> = - ln (256 :: real)" by (simp add: ln_div)
  finally show ?thesis by (simp add: shannon_ent_sum)
qed

lemma count_list_distinct: "distinct xs \<Longrightarrow> v \<in> set xs \<Longrightarrow> count_list xs v = 1"
  by (induction xs) (auto simp: count_list_0_iff)

text \<open>A list of 256 distinct bytes holds every byte value exactly once.\<close>

lemma all_bytes_once:
  fixes xs :: "byte list"
  assumes "length xs = 256" "distinct xs"
  shows "count_list xs v = 1"
proof -
  have "card (set xs) = card (UNIV :: byte set)"
    using assms by (simp add: distinct_card card_word)
  then have "set xs = UNIV" by (intro card_subset_eq) simp_all
  then have "v \<in> set xs" by simp
  with \<open>distinct xs\<close> show ?thesis by (rule count_list_distinct)
qed

lemma distinct_byte_range: "distinct (map word_of_nat [0..<256] :: byte list)"
proof -
  have "inj_on (word_of_nat :: nat \<Rightarrow> byte) {0..<256}"
    by (rule inj_onI) (simp add: word_of_nat_eq_iff take_bit_nat_eq_self)
  then show ?thesis by (simp add: distinct_map)
qed

section \<open>Range and extremes of the entropy\<close>

text \<open>
  C6: for every non-empty byte sequence, the value returned by \<open>shannon_ent\<close> (with its
  default base 256) lies in the closed interval from 0 to 1.
\<close>

theorem shannon_ent_unit_interval:
  fixes xs :: "byte list"
  shows "xs \<noteq> [] \<Longrightarrow> 0 \<le> shannon_ent xs (Some 256) \<and> shannon_ent xs (Some 256) \<le> 1"
  by (rule shannon_ent_range)

theorem shannon_ent_unit_interval_witness:
  "[1, 2, 2 :: byte] \<noteq> [] \<and> 0 \<le> shannon_ent [1, 2, 2 :: byte] (Some 256)
     \<and> shannon_ent [1, 2, 2 :: byte] (Some 256) \<le> 1"
  using shannon_ent_unit_interval [of "[1, 2, 2]"] by simp

text \<open>
  C7: \<open>shannon_ent\<close> returns exactly 0 for \<open>n \<ge> 1\<close> copies of a single byte value, and
  returns 1 for an input in which all 256 byte values occur equally often. Over the
  reals the second value is exactly 1, so it is 1 within any tolerance.
\<close>

theorem shannon_ent_extremes:
  fixes b :: byte and xs :: "byte list"
  shows "(1 \<le> n \<longrightarrow> shannon_ent (replicate n b) (Some 256) = 0) \<and>
         (xs \<noteq> [] \<and> (\<forall>v w. count_list xs v = count_list xs w) \<longrightarrow>
            shannon_ent xs (Some 256) = 1)"
  using shannon_ent_replicate [of n b] shannon_ent_uniform [of xs] by blast

theorem shannon_ent_extremes_witness:
  "(1::nat) \<le> 3 \<and> shannon_ent (replicate 3 (65 :: byte)) (Some 256) = 0 \<and>
   (map word_of_nat [0..<256] :: byte list) \<noteq> [] \<and>
   shannon_ent (map word_of_nat [0..<256] :: byte list) (Some 256) = 1"
proof -
  let ?xs = "map word_of_nat [0..<256] :: byte list"
  have ne: "?xs \<noteq> []" by simp
  have "\<forall>v w. count_list ?xs v = count_list ?xs w"
    using all_bytes_once [OF _ distinct_byte_range] by simp
  with ne shannon_ent_extremes [of 3 65 ?xs] show ?thesis by simp
qed

section \<open>Properties of the byte histograms\<close>

lemma Counter_uint: "Counter xs (uint v) = count_list xs v"
  by (induction xs) (auto simp: Counter_def word_uint_eq_iff)

lemma sum_Counter_all: "sum_list (map (Counter xs) [0..255]) = length xs"
proof -
  have "set (map uint xs) \<subseteq> {0..255}"
  proof
    fix x assume "x \<in> set (map uint xs)"
    then obtain b :: byte where "x = uint b" by auto
    moreover have "uint b < 2 ^ LENGTH(8)" by (rule uint_lt2p)
    ultimately show "x \<in> {0..255}" by simp
  qed
  then have "sum (count_list (map uint xs)) {0..255} = length (map uint xs)"
    by (rule sum_count_set) simp
  moreover have "sum_list (map (Counter xs) [0..255]) = sum (Counter xs) {0..255}"
    by (simp add: interv_sum_list_conv_sum_set_int)
  moreover have "Counter xs = count_list (map uint xs)"
    by (rule ext) (simp add: Counter_def)
  ultimately show ?thesis by simp
qed

lemma sum_Counter_nonzero: "sum_list (map (Counter xs) [1..255]) = length xs - count_list xs 0"
proof -
  have "[0..255] = 0 # [1..255::int]" by (simp add: upto_rec1)
  then have "sum_list (map (Counter xs) [0..255]) = Counter xs 0 + sum_list (map (Counter xs) [1..255])"
    by simp
  moreover have "Counter xs 0 = count_list xs 0"
    using Counter_uint [of xs 0] by simp
  ultimately show ?thesis using sum_Counter_all [of xs] by simp
qed

lemma bin_hist_rows:
  "bin_hist xs ignore_0 ordered =
     (map (Counter xs) [(if ignore_0 then 1 else 0)..255],
      if ordered then Some (rev (sort (map (Counter xs) [(if ignore_0 then 1 else 0)..255]))) else None)"
  by (simp add: bin_hist_def)

lemma sorted_wrt_ge_rev_sort: "sorted_wrt (\<ge>) (rev (sort (xs :: nat list)))"
  by (simp add: sorted_wrt_rev)

text \<open>
  C9: for the histogram of a byte sequence \<open>xs\<close>, the counts sum to the length of \<open>xs\<close>
  when zero is included and to the length minus the number of zero bytes when zero is
  excluded; the rank-ordered row is a permutation of the value-indexed row, sorted in
  descending order. The per-section histogram builds the same two rows from the
  content of each section.
\<close>

theorem histogram_rows:
  "sum_list (fst (bin_hist xs False ordered)) = length xs \<and>
   sum_list (fst (bin_hist xs True ordered)) = length xs - count_list xs 0 \<and>
   (\<exists>sorted_row. snd (bin_hist xs ignore_0 True) = Some sorted_row \<and>
      mset sorted_row = mset (fst (bin_hist xs ignore_0 True)) \<and>
      sorted_wrt (\<ge>) sorted_row) \<and>
   section_byte_occurance_histogram sections ignore_0 ordered =
     map (\<lambda>section. bin_hist (content section) ignore_0 ordered) sections"
  by (simp add: bin_hist_rows sum_Counter_all sum_Counter_nonzero sorted_wrt_ge_rev_sort
      section_byte_occurance_histogram_def)

section \<open>Reading the file in chunks\<close>

lemma median_pair: "median [a, b] = Inr ((a + b) / 2)"
  by (simp add: median_def Let_def insort_key.simps add.commute)

lemma fh_read_pos: "0 < n \<Longrightarrow> fh_read fh (int n) = Inr (take n fh, drop n fh)"
  by (simp add: fh_read_def)

lemma get_chunk_Nil: "0 < n \<Longrightarrow> get_chunk [] (int n) = Inr []"
  by (subst get_chunk.simps) (simp add: fh_read_pos)

lemma get_chunk_step:
  "0 < n \<Longrightarrow> fh \<noteq> [] \<Longrightarrow>
     get_chunk fh (int n) =
       (case get_chunk (drop n fh) (int n) of Inl e \<Rightarrow> Inl e | Inr rest \<Rightarrow> Inr (take n fh # rest))"
  by (subst get_chunk.simps) (simp add: fh_read_pos)


section \<open>The loop of the whole-file sampler\<close>

lemma map_of_append_entry:
  "map_of (append_entry l v br) k =
     (if k = l then map_option (\<lambda>s. s @ [v]) (map_of br k) else map_of br k)"
  by (induction l v br rule: append_entry.induct) auto

lemma map_of_fold_append_entry:
  "distinct (map fst ib) \<Longrightarrow>
   map_of (fold (\<lambda>(l, r) br. append_entry l (f r) br) ib br) k =
     (case map_of ib k of
        None \<Rightarrow> map_of br k
      | Some r \<Rightarrow> map_option (\<lambda>s. s @ [f r]) (map_of br k))"
proof (induction ib arbitrary: br)
  case Nil
  then show ?case by simp
next
  case (Cons p ib)
  obtain l r where p: "p = (l, r)" by (cases p)
  from Cons.prems p have d: "distinct (map fst ib)" and l: "map_of ib l = None"
    by (auto simp: map_of_eq_None_iff)
  show ?case
    using Cons.IH [OF d, of "append_entry l (f r) br"] l
    by (auto simp: p map_of_append_entry split: option.splits)
qed

lemma ibytes_percentage_sum:
  "ibytes_percentage chunk b_range =
     100 * real (sum_list (map (Counter chunk) b_range)) / real (length chunk)"
proof -
  have "fold (\<lambda>b occurance. occurance + Counter chunk b) b_range a =
        a + sum_list (map (Counter chunk) b_range)" for a
    by (induction b_range arbitrary: a) simp_all
  from this [of 0] show ?thesis by (simp add: ibytes_percentage_def)
qed

lemma bin_ent_step_eq:
  "bin_ent_step ibytes chunk st =
     Inr (st\<lparr>prev_ent := shannon_ent chunk (Some 256),
             shannon_samples := shannon_samples st @ [shannon_ent chunk (Some 256)],
             byte_ranges :=
               fold (\<lambda>(label, b_range) br. append_entry label (ibytes_percentage chunk b_range) br)
                 ibytes (byte_ranges st)\<rparr>)"
  by (cases "ibytes = []") (simp_all add: bin_ent_step_def median_pair Let_def)

lemma bin_ent_loop_spec:
  "\<exists>st'. bin_ent_loop ibytes cs st = Inr st' \<and>
      shannon_samples st' = shannon_samples st @ map (\<lambda>chunk. shannon_ent chunk (Some 256)) cs \<and>
      (distinct (map fst ibytes) \<longrightarrow>
        (\<forall>label b_range series. map_of ibytes label = Some b_range \<longrightarrow>
            map_of (byte_ranges st) label = Some series \<longrightarrow>
            map_of (byte_ranges st') label =
              Some (series @ map (\<lambda>chunk. ibytes_percentage chunk b_range) cs)))"
proof (induction cs arbitrary: st)
  case Nil
  then show ?case by simp
next
  case (Cons chunk cs)
  define st1 where "st1 = st\<lparr>prev_ent := shannon_ent chunk (Some 256),
             shannon_samples := shannon_samples st @ [shannon_ent chunk (Some 256)],
             byte_ranges :=
               fold (\<lambda>(label, b_range) br. append_entry label (ibytes_percentage chunk b_range) br)
                 ibytes (byte_ranges st)\<rparr>"
  have step: "bin_ent_step ibytes chunk st = Inr st1"
    by (simp add: bin_ent_step_eq st1_def)
  from Cons.IH [of st1] obtain st' where st':
    "bin_ent_loop ibytes cs st1 = Inr st'"
    "shannon_samples st' = shannon_samples st1 @ map (\<lambda>chunk. shannon_ent chunk (Some 256)) cs"
    "distinct (map fst ibytes) \<longrightarrow>
        (\<forall>label b_range series. map_of ibytes label = Some b_range \<longrightarrow>
            map_of (byte_ranges st1) label = Some series \<longrightarrow>
            map_of (byte_ranges st') label =
              Some (series @ map (\<lambda>chunk. ibytes_percentage chunk b_range) cs))"
    by blast
  have a: "bin_ent_loop ibytes (chunk # cs) st = Inr st'"
    by (simp add: step st'(1))
  have b: "shannon_samples st' =
      shannon_samples st @ map (\<lambda>chunk. shannon_ent chunk (Some 256)) (chunk # cs)"
    by (simp add: st'(2) st1_def)
  have c: "map_of (byte_ranges st') label =
              Some (series @ map (\<lambda>chunk. ibytes_percentage chunk b_range) (chunk # cs))"
    if d: "distinct (map fst ibytes)" and l: "map_of ibytes label = Some b_range"
      and s: "map_of (byte_ranges st) label = Some series" for label b_range series
  proof -
    have "map_of (byte_ranges st1) label = Some (series @ [ibytes_percentage chunk b_range])"
      using d l s by (simp add: st1_def map_of_fold_append_entry)
    with st'(3) d l show ?thesis by fastforce
  qed
  from a b c show ?case by blast
qed



lemma chunksize_pos: "0 < L \<Longrightarrow> 0 < N \<Longrightarrow> 0 < - (- L div (N::int))"
  using pos_imp_zdiv_neg_iff by fastforce

lemma map_of_init_ranges:
  "map_of (map (\<lambda>(key, _). (key, [])) ib) k = map_option (\<lambda>_. []) (map_of ib k)"
  by (induction ib) auto

lemma bin_ent_spec:
  assumes "chunks \<noteq> 0" and g: "get_chunk fh (- (- int (length fh) div chunks)) = Inr cs"
  shows "\<exists>ranges. bin_ent fh chunks ibytes =
             Inr (map (\<lambda>chunk. shannon_ent chunk (Some 256)) cs, ranges) \<and>
           (distinct (map fst ibytes) \<longrightarrow>
             (\<forall>label b_range. map_of ibytes label = Some b_range \<longrightarrow>
                map_of ranges label = Some (map (\<lambda>chunk. ibytes_percentage chunk b_range) cs)))"
proof -
  define st0 where "st0 = \<lparr>prev_ent = 0, shannon_samples = [],
     byte_ranges = (if length ibytes > 0 then map (\<lambda>(key, _). (key, [])) ibytes else [])\<rparr>"
  have init: "byte_ranges st0 = map (\<lambda>(key, _). (key, [])) ibytes"
    by (cases ibytes) (simp_all add: st0_def)
  from bin_ent_loop_spec [of ibytes cs st0] obtain st' where st':
    "bin_ent_loop ibytes cs st0 = Inr st'"
    "shannon_samples st' = shannon_samples st0 @ map (\<lambda>chunk. shannon_ent chunk (Some 256)) cs"
    "distinct (map fst ibytes) \<longrightarrow>
        (\<forall>label b_range series. map_of ibytes label = Some b_range \<longrightarrow>
            map_of (byte_ranges st0) label = Some series \<longrightarrow>
            map_of (byte_ranges st') label =
              Some (series @ map (\<lambda>chunk. ibytes_percentage chunk b_range) cs))"
    by blast
  have "bin_ent fh chunks ibytes = Inr (shannon_samples st', byte_ranges st')"
    using assms st'(1) by (simp add: bin_ent_def Let_def st0_def)
  moreover have "shannon_samples st' = map (\<lambda>chunk. shannon_ent chunk (Some 256)) cs"
    using st'(2) by (simp add: st0_def)
  moreover have "map_of (byte_ranges st') label =
        Some (map (\<lambda>chunk. ibytes_percentage chunk b_range) cs)"
    if "distinct (map fst ibytes)" "map_of ibytes label = Some b_range" for label b_range
  proof -
    have "map_of (byte_ranges st0) label = Some []"
      using that(2) by (simp add: init map_of_init_ranges)
    with st'(3) that show ?thesis by fastforce
  qed
  ultimately show ?thesis by auto
qed

lemma bin_ent_Inr_chunks:
  assumes "bin_ent fh chunks ibytes = Inr r"
  shows "chunks \<noteq> 0 \<and> (\<exists>cs. get_chunk fh (- (- int (length fh) div chunks)) = Inr cs)"
  using assms by (auto simp: bin_ent_def Let_def split: if_splits sum.splits)



section \<open>Samples and percentages of the whole-file sampler\<close>

lemma get_chunk_single:
  assumes "fh \<noteq> []" "length fh \<le> n"
  shows "get_chunk fh (int n) = Inr [fh]"
proof -
  from assms have n: "0 < n" by (cases fh) auto
  have "get_chunk fh (int n) = (case get_chunk (drop n fh) (int n) of Inl e \<Rightarrow> Inl e | Inr rest \<Rightarrow> Inr (take n fh # rest))"
    using n assms(1) by (rule get_chunk_step)
  then show ?thesis using assms n by (simp add: get_chunk_Nil)
qed

lemma ln_256: "ln (256 :: real) = 8 * ln 2"
proof -
  have "ln ((2 :: real) ^ 8) = 8 * ln 2" by (simp only: ln_realpow)
  then show ?thesis by simp
qed

lemma shannon_ent_two_bytes: "shannon_ent [0, 1 :: byte] (Some 256) = 1 / 8"
proof -
  have "plogp (Suc (Suc 0)) (Suc 0) = - (ln 2 / 2)" by (simp add: plogp_def ln_div)
  then show ?thesis by (simp add: shannon_ent_sum ln_256)
qed

lemma bin_ent_two_bytes: "bin_ent [0, 1] 1 [] = Inr ([1 / 8], [])"
proof -
  have "get_chunk [0, 1 :: byte] (int 2) = Inr [[0, 1]]"
    by (rule get_chunk_single) simp_all
  then show ?thesis
    by (simp add: bin_ent_def bin_ent_step_eq shannon_ent_two_bytes)
qed

text \<open>
  C1 (as stated, refuted): the first sample of the whole-file sampler is not the median
  of the first chunk's raw entropy and 0. On the two-byte file \<open>00 01\<close> with one
  chunk the raw entropy is \<open>1/8\<close>, the median with the seed 0 is \<open>1/16\<close>, and the
  sample that is emitted is \<open>1/8\<close>.
\<close>

theorem bin_ent_first_sample_not_median:
  "bin_ent [0, 1] 1 [] = Inr ([1 / 8], []) \<and>
   get_chunk [0, 1] (- (- int (length [0, 1 :: byte]) div 1)) = Inr [[0, 1]] \<and>
   median [shannon_ent [0, 1 :: byte] (Some 256), 0] = Inr (1 / 16)"
proof -
  have "get_chunk [0, 1 :: byte] (int 2) = Inr [[0, 1]]"
    by (rule get_chunk_single) simp_all
  then show ?thesis
    by (simp add: bin_ent_two_bytes shannon_ent_two_bytes median_pair)
qed

text \<open>
  C1 (amended): for every byte stream and every chunk index \<open>k\<close>, the \<open>k\<close>-th sample
  emitted by \<open>bin_ent\<close> is the raw Shannon entropy of the \<open>k\<close>-th chunk. The median
  with the previous raw entropy is computed, and the statement \<open>ent = real_ent\<close> then
  replaces it by the raw value before the sample is appended.
\<close>

theorem bin_ent_samples_raw:
  "bin_ent fh chunks ibytes = Inr (samples, ranges) \<Longrightarrow>
     \<exists>cs. get_chunk fh (- (- int (length fh) div chunks)) = Inr cs \<and>
          length samples = length cs \<and>
          (\<forall>k<length cs. samples ! k = shannon_ent (cs ! k) (Some 256))"
proof -
  assume b: "bin_ent fh chunks ibytes = Inr (samples, ranges)"
  from bin_ent_Inr_chunks [OF b] obtain cs where
    c: "chunks \<noteq> 0" and g: "get_chunk fh (- (- int (length fh) div chunks)) = Inr cs" by blast
  from bin_ent_spec [OF c g, of ibytes] b
  have "samples = map (\<lambda>chunk. shannon_ent chunk (Some 256)) cs" by auto
  with g show ?thesis by simp
qed

theorem bin_ent_samples_raw_witness:
  "bin_ent [0, 1] 1 [] = Inr ([1 / 8], []) \<and>
   (\<exists>cs. get_chunk [0, 1] (- (- int (length [0, 1 :: byte]) div 1)) = Inr cs \<and>
         length [1 / 8 :: real] = length cs \<and>
         (\<forall>k<length cs. [1 / 8] ! k = shannon_ent (cs ! k) (Some 256)))"
  using bin_ent_samples_raw [OF bin_ent_two_bytes] bin_ent_two_bytes by simp

lemma bin_ent_one_chunk:
  assumes "fh \<noteq> []"
  shows "\<exists>ranges. bin_ent fh 1 ibytes = Inr ([shannon_ent fh (Some 256)], ranges)"
proof -
  have "get_chunk fh (int (length fh)) = Inr [fh]"
    using assms by (intro get_chunk_single) simp_all
  then have "get_chunk fh (- (- int (length fh) div 1)) = Inr [fh]" by simp
  from bin_ent_spec [OF _ this, of ibytes] show ?thesis by auto
qed

text \<open>
  C2: for a file of 256 bytes that holds each byte value exactly once, \<open>bin_ent\<close> with
  chunk count 1 produces exactly one entropy sample, and its value is 1 (within the
  tolerance \<open>1e-9\<close>; over the reals it is exactly 1).
\<close>

theorem bin_ent_all_bytes_once:
  "length fh = 256 \<Longrightarrow> distinct fh \<Longrightarrow>
     \<exists>s ranges. bin_ent fh 1 ibytes = Inr ([s], ranges) \<and> s = 1 \<and> \<bar>s - 1\<bar> \<le> 1 / 10 ^ 9"
proof -
  assume l: "length fh = 256" and d: "distinct fh"
  from l have ne: "fh \<noteq> []" by auto
  have "\<forall>v w. count_list fh v = count_list fh w"
    using all_bytes_once [OF l d] by simp
  with ne have "shannon_ent fh (Some 256) = 1" by (rule shannon_ent_uniform)
  with bin_ent_one_chunk [OF ne, of ibytes] show ?thesis by auto
qed

theorem bin_ent_all_bytes_once_witness:
  "length (map word_of_nat [0..<256] :: byte list) = 256 \<and>
   distinct (map word_of_nat [0..<256] :: byte list) \<and>
   (\<exists>s ranges. bin_ent (map word_of_nat [0..<256]) 1 [] = Inr ([s], ranges) \<and> s = 1 \<and>
      \<bar>s - 1\<bar> \<le> 1 / 10 ^ 9)"
proof -
  have l: "length (map word_of_nat [0..<256] :: byte list) = 256" by simp
  from l distinct_byte_range bin_ent_all_bytes_once [OF l distinct_byte_range, of "[]"]
  show ?thesis by blast
qed



lemma shannon_ent_single: "shannon_ent [b :: byte] (Some 256) = 0"
  using shannon_ent_replicate [of 1 b] by simp

lemma bin_ent_dup_group: "bin_ent [0] 1 [(''dup'', [0, 0])] = Inr ([0], [(''dup'', [200])])"
proof -
  have "get_chunk [0 :: byte] (int 1) = Inr [[0]]"
    by (rule get_chunk_single) simp_all
  then show ?thesis
    by (simp add: bin_ent_def bin_ent_step_eq shannon_ent_single ibytes_percentage_def Counter_def)
qed

text \<open>
  C10: the percentage \<open>bin_ent\<close> reports for a tracked group in the \<open>k\<close>-th chunk is
  100 times the sum, over the entries of the group's list, of the number of occurrences
  of that entry in the chunk, divided by the length of the chunk. The entries are not
  deduplicated: for the group \<open>[0, 0]\<close> and the one-byte file \<open>00\<close> the reported
  percentage is 200.
\<close>

theorem tracked_group_percentage:
  "(distinct (map fst ibytes) \<and> map_of ibytes label = Some b_range \<and>
    bin_ent fh chunks ibytes = Inr (samples, ranges) \<longrightarrow>
      (\<exists>cs series.
          get_chunk fh (- (- int (length fh) div chunks)) = Inr cs \<and>
          map_of ranges label = Some series \<and> length series = length cs \<and>
          (\<forall>k<length cs.
              series ! k =
                100 * real (\<Sum>b\<leftarrow>b_range. count_list (map uint (cs ! k)) b)
                  / real (length (cs ! k))))) \<and>
   bin_ent [0] 1 [(''dup'', [0, 0])] = Inr ([0], [(''dup'', [200])])"
proof (intro conjI impI)
  assume a: "distinct (map fst ibytes) \<and> map_of ibytes label = Some b_range \<and>
    bin_ent fh chunks ibytes = Inr (samples, ranges)"
  from a bin_ent_Inr_chunks obtain cs where
    c: "chunks \<noteq> 0" and g: "get_chunk fh (- (- int (length fh) div chunks)) = Inr cs" by blast
  from bin_ent_spec [OF c g, of ibytes] a
  have r: "map_of ranges label = Some (map (\<lambda>chunk. ibytes_percentage chunk b_range) cs)"
    by auto
  have "Counter chunk = count_list (map uint chunk)" for chunk
    by (rule ext) (simp add: Counter_def)
  then have "\<forall>k<length cs. map (\<lambda>chunk. ibytes_percentage chunk b_range) cs ! k =
       100 * real (\<Sum>b\<leftarrow>b_range. count_list (map uint (cs ! k)) b) / real (length (cs ! k))"
    by (simp add: ibytes_percentage_sum)
  with g r show "\<exists>cs series.
          get_chunk fh (- (- int (length fh) div chunks)) = Inr cs \<and>
          map_of ranges label = Some series \<and> length series = length cs \<and>
          (\<forall>k<length cs.
              series ! k =
                100 * real (\<Sum>b\<leftarrow>b_range. count_list (map uint (cs ! k)) b)
                  / real (length (cs ! k)))"
    by (intro exI [of _ cs] exI [of _ "map (\<lambda>chunk. ibytes_percentage chunk b_range) cs"]) simp
next
  show "bin_ent [0] 1 [(''dup'', [0, 0])] = Inr ([0], [(''dup'', [200])])"
    by (rule bin_ent_dup_group)
qed

theorem tracked_group_percentage_witness:
  "distinct (map fst [(''dup'', [0, 0 :: int])]) \<and>
   map_of [(''dup'', [0, 0 :: int])] ''dup'' = Some [0, 0] \<and>
   bin_ent [0] 1 [(''dup'', [0, 0])] = Inr ([0], [(''dup'', [200])]) \<and>
   (\<exists>cs series.
      get_chunk [0] (- (- int (length [0 :: byte]) div 1)) = Inr cs \<and>
      map_of [(''dup'', [200 :: real])] ''dup'' = Some series \<and> length series = length cs \<and>
      (\<forall>k<length cs.
          series ! k =
            100 * real (\<Sum>b\<leftarrow>[0, 0]. count_list (map uint (cs ! k)) b) / real (length (cs ! k))))"
proof -
  have "distinct (map fst [(''dup'', [0, 0 :: int])]) \<and>
        map_of [(''dup'', [0, 0 :: int])] ''dup'' = Some [0, 0] \<and>
        bin_ent [0] 1 [(''dup'', [0, 0])] = Inr ([0], [(''dup'', [200])])"
    by (simp add: bin_ent_dup_group)
  with tracked_group_percentage
    [of "[(''dup'', [0, 0])]" "''dup''" "[0, 0]" "[0]" 1 "[0]" "[(''dup'', [200])]"]
  show ?thesis by blast
qed

section \<open>Properties of the per-section profile\<close>

lemma loop_stop:
  "int (length data) < p \<Longrightarrow> section_ent_loop data bl i p pe acc = Some (Inr acc)"
  by (subst section_ent_loop.simps) simp

lemma loop_step:
  "p \<le> int (length data) \<Longrightarrow>
     section_ent_loop data bl i p pe acc =
       section_ent_loop data bl (i + 1) (i * bl + 1)
         (shannon_ent (py_slice data p (i * bl)) (Some 256))
         (acc @ [(shannon_ent (py_slice data p (i * bl)) (Some 256) + pe) / 2])"
  by (subst section_ent_loop.simps) (simp add: median_pair Let_def)

lemma loop_spec:
  assumes "p \<le> i * bl" and "1 \<le> bl \<or> int (length data) < i * bl + 1"
  shows "\<exists>rest. section_ent_loop data bl i p pe acc = Some (Inr (acc @ rest)) \<and>
     int (length data) < (if length rest = 0 then p else (i + int (length rest) - 1) * bl + 1) \<and>
     (\<forall>m<length rest.
        (if m = 0 then p else (i + int m - 1) * bl + 1) \<le> int (length data) \<and>
        rest ! m =
          (shannon_ent (py_slice data (if m = 0 then p else (i + int m - 1) * bl + 1)
                          ((i + int m) * bl)) (Some 256)
           + (if m = 0 then pe
              else shannon_ent (py_slice data (if m - 1 = 0 then p else (i + int (m - 1) - 1) * bl + 1)
                                  ((i + int (m - 1)) * bl)) (Some 256))) / 2)"
  using assms
proof (induction "nat (int (length data) + 1 - p)" arbitrary: i p pe acc rule: less_induct)
  case less
  show ?case
  proof (cases "p \<le> int (length data)")
    case False
    then have "section_ent_loop data bl i p pe acc = Some (Inr (acc @ []))"
      by (simp add: loop_stop)
    with False show ?thesis by (intro exI [of _ "[]"]) simp
  next
    case True
    define r0 where "r0 = shannon_ent (py_slice data p (i * bl)) (Some 256)"
    define p' where "p' = i * bl + 1"
    have step: "section_ent_loop data bl i p pe acc =
        section_ent_loop data bl (i + 1) p' r0 (acc @ [(r0 + pe) / 2])"
      using True by (simp add: loop_step r0_def p'_def)
    have "\<exists>rest'. section_ent_loop data bl (i + 1) p' r0 (acc @ [(r0 + pe) / 2])
               = Some (Inr ((acc @ [(r0 + pe) / 2]) @ rest')) \<and>
       int (length data) < (if length rest' = 0 then p' else (i + 1 + int (length rest') - 1) * bl + 1) \<and>
       (\<forall>m<length rest'.
        (if m = 0 then p' else (i + 1 + int m - 1) * bl + 1) \<le> int (length data) \<and>
        rest' ! m =
          (shannon_ent (py_slice data (if m = 0 then p' else (i + 1 + int m - 1) * bl + 1)
                          ((i + 1 + int m) * bl)) (Some 256)
           + (if m = 0 then r0
              else shannon_ent (py_slice data (if m - 1 = 0 then p' else (i + 1 + int (m - 1) - 1) * bl + 1)
                                  ((i + 1 + int (m - 1)) * bl)) (Some 256))) / 2)"
    proof (cases "p' \<le> int (length data)")
      case False
      then have "section_ent_loop data bl (i + 1) p' r0 (acc @ [(r0 + pe) / 2])
           = Some (Inr ((acc @ [(r0 + pe) / 2]) @ []))"
        by (simp add: loop_stop)
      with False show ?thesis by (intro exI [of _ "[]"]) simp
    next
      case p'le: True
      with less.prems(2) have bl: "1 \<le> bl" by (simp add: p'_def)
      have "nat (int (length data) + 1 - p') < nat (int (length data) + 1 - p)"
        using less.prems(1) True by (simp add: p'_def)
      moreover have "p' \<le> (i + 1) * bl" using bl by (simp add: p'_def algebra_simps)
      moreover have "1 \<le> bl \<or> int (length data) < (i + 1) * bl + 1" using bl by simp
      ultimately show ?thesis by (rule less.hyps)
    qed
    then obtain rest' where rest':
      "section_ent_loop data bl (i + 1) p' r0 (acc @ [(r0 + pe) / 2])
               = Some (Inr ((acc @ [(r0 + pe) / 2]) @ rest'))"
      "int (length data) < (if length rest' = 0 then p' else (i + 1 + int (length rest') - 1) * bl + 1)"
      "\<forall>m<length rest'.
        (if m = 0 then p' else (i + 1 + int m - 1) * bl + 1) \<le> int (length data) \<and>
        rest' ! m =
          (shannon_ent (py_slice data (if m = 0 then p' else (i + 1 + int m - 1) * bl + 1)
                          ((i + 1 + int m) * bl)) (Some 256)
           + (if m = 0 then r0
              else shannon_ent (py_slice data (if m - 1 = 0 then p' else (i + 1 + int (m - 1) - 1) * bl + 1)
                                  ((i + 1 + int (m - 1)) * bl)) (Some 256))) / 2"
      by blast
    have st: "(if m = 0 then p' else (i + 1 + int m - 1) * bl + 1) = (i + int (Suc m) - 1) * bl + 1" for m
      by (simp add: p'_def)
    let ?rest = "((r0 + pe) / 2) # rest'"
    have a: "section_ent_loop data bl i p pe acc = Some (Inr (acc @ ?rest))"
      using step rest'(1) by simp
    have b: "int (length data) < (if length ?rest = 0 then p else (i + int (length ?rest) - 1) * bl + 1)"
      using rest'(2) unfolding st by simp
    have c: "(if m = 0 then p else (i + int m - 1) * bl + 1) \<le> int (length data) \<and>
        ?rest ! m =
          (shannon_ent (py_slice data (if m = 0 then p else (i + int m - 1) * bl + 1)
                          ((i + int m) * bl)) (Some 256)
           + (if m = 0 then pe
              else shannon_ent (py_slice data (if m - 1 = 0 then p else (i + int (m - 1) - 1) * bl + 1)
                                  ((i + int (m - 1)) * bl)) (Some 256))) / 2"
      if m: "m < length ?rest" for m
    proof (cases m)
      case 0
      with True show ?thesis by (simp add: r0_def)
    next
      case (Suc m')
      with m have m': "m' < length rest'" by simp
      from rest'(3) m' have
        h1: "(i + int (Suc m') - 1) * bl + 1 \<le> int (length data)" and
        h2: "rest' ! m' =
          (shannon_ent (py_slice data ((i + int (Suc m') - 1) * bl + 1)
                          ((i + 1 + int m') * bl)) (Some 256)
           + (if m' = 0 then r0
              else shannon_ent (py_slice data (if m' - 1 = 0 then p' else (i + 1 + int (m' - 1) - 1) * bl + 1)
                                  ((i + 1 + int (m' - 1)) * bl)) (Some 256))) / 2"
        unfolding st by blast+
      show ?thesis
      proof (cases m')
        case 0
        with h1 h2 Suc show ?thesis by (simp add: r0_def)
      next
        case (Suc m'')
        have e1: "(if m' - 1 = 0 then p' else (i + 1 + int (m' - 1) - 1) * bl + 1)
               = (i + int m' - 1) * bl + 1"
          using Suc by (simp add: p'_def)
        have e2: "(i + 1 + int (m' - 1)) * bl = (i + int m') * bl" using Suc by simp
        have e3: "(i + 1 + int m') * bl = (i + int (Suc m')) * bl" by simp
        from h1 h2 \<open>m = Suc m'\<close> Suc show ?thesis
          unfolding e1 e2 e3 by simp
      qed
    qed
    from a b c show ?thesis by blast
  qed
qed

text \<open>For indices that are not negative, Python's slice is \<open>take\<close> after \<open>drop\<close>.\<close>

lemma py_slice_nonneg:
  assumes "0 \<le> start" "0 \<le> stop"
  shows "py_slice xs start stop = take (nat stop - nat start) (drop (nat start) xs)"
proof (cases "nat start \<le> length xs")
  case True
  then have lo: "min start (int (length xs)) = start" using assms by simp
  show ?thesis
  proof (cases "nat stop \<le> length xs")
    case True
    then have "min stop (int (length xs)) = stop" using assms by simp
    with lo assms show ?thesis by (simp add: py_slice_def nat_diff_distrib')
  next
    case False
    then have hi: "min stop (int (length xs)) = int (length xs)" by simp
    have "length (drop (nat start) xs) \<le> nat stop - nat start" using False by simp
    then have "take (nat stop - nat start) (drop (nat start) xs) = drop (nat start) xs"
      by (rule take_all)
    moreover have "length (drop (nat start) xs) \<le> nat (int (length xs) - start)"
      using assms by simp
    then have "take (nat (int (length xs) - start)) (drop (nat start) xs) = drop (nat start) xs"
      by (rule take_all)
    ultimately show ?thesis using lo hi assms by (simp add: py_slice_def)
  qed
next
  case False
  then have "drop (nat start) xs = []" by simp
  moreover have "min start (int (length xs)) = int (length xs)" using False by simp
  ultimately show ?thesis using assms by (simp add: py_slice_def)
qed

lemma block_slice:
  assumes "0 \<le> bl"
  shows "py_slice data (block_start bl k) (block_end bl k) = block_bytes data bl k"
proof -
  have "0 \<le> block_start bl k" "0 \<le> block_end bl k"
    using assms by (simp_all add: block_start_def block_end_def)
  then show ?thesis by (simp add: py_slice_nonneg block_bytes_def)
qed

lemma block_len_cases:
  assumes "1 \<le> (B::int)"
  shows "0 \<le> - (- int L div B)" and "L = 0 \<or> 1 \<le> - (- int L div B)"
proof -
  show "L = 0 \<or> 1 \<le> - (- int L div B)"
  proof (cases "L = 0")
    case False
    then have "0 < - (- int L div B)" using assms by (intro chunksize_pos) simp_all
    then show ?thesis by simp
  qed simp
  then show "0 \<le> - (- int L div B)" by auto
qed

lemma section_ent_samples_profile:
  assumes B: "1 \<le> block_size"
  shows "\<exists>samples. section_ent_samples section block_size = Some (Inr samples) \<and>
           block_profile (content section)
             (- (- int (length (content section)) div block_size)) samples"
proof -
  define data where "data = content section"
  define bl where "bl = - (- int (length data) div block_size)"
  from block_len_cases [OF B, of "length data"]
  have h: "0 \<le> 1 * bl" "1 \<le> bl \<or> int (length data) < 1 * bl + 1"
    by (auto simp: bl_def)
  from loop_spec [OF h, of 0 "[]"] obtain rest where rest:
    "section_ent_loop data bl 1 0 0 [] = Some (Inr rest)"
    "int (length data) < (if length rest = 0 then 0 else (1 + int (length rest) - 1) * bl + 1)"
    "\<forall>m<length rest.
        (if m = 0 then 0 else (1 + int m - 1) * bl + 1) \<le> int (length data) \<and>
        rest ! m =
          (shannon_ent (py_slice data (if m = 0 then 0 else (1 + int m - 1) * bl + 1)
                          ((1 + int m) * bl)) (Some 256)
           + (if m = 0 then 0
              else shannon_ent (py_slice data (if m - 1 = 0 then 0 else (1 + int (m - 1) - 1) * bl + 1)
                                  ((1 + int (m - 1)) * bl)) (Some 256))) / 2"
    by auto
  have st: "(if m = 0 then 0 else (1 + int m - 1) * bl + 1) = block_start bl m" for m
    by (simp add: block_start_def)
  have en: "(1 + int m) * bl = block_end bl m" for m
    by (simp add: block_end_def add.commute)
  from B have "section_ent_samples section block_size = Some (Inr rest)"
    using rest(1) by (simp add: section_ent_samples_def data_def bl_def)
  moreover have "block_profile data bl rest"
    using rest(2,3) unfolding st en block_slice [OF h(1) [simplified]]
    by (simp add: block_profile_def block_raw_ent_def median_pair)
  ultimately show ?thesis unfolding bl_def data_def by blast
qed

lemma section_ent_line_profile:
  assumes B: "1 \<le> block_size"
  shows "\<exists>series. section_ent_line sections block_size = Some (Inr series) \<and>
           length series = length sections \<and>
           (\<forall>j<length sections.
               block_profile (content (sections ! j))
                 (- (- int (length (content (sections ! j))) div block_size)) (series ! j))"
proof (induction sections)
  case Nil
  show ?case by simp
next
  case (Cons s sections)
  from section_ent_samples_profile [OF B, of s] obtain samples where s:
    "section_ent_samples s block_size = Some (Inr samples)"
    "block_profile (content s) (- (- int (length (content s)) div block_size)) samples"
    by blast
  from Cons.IH obtain series where r:
    "section_ent_line sections block_size = Some (Inr series)"
    "length series = length sections"
    "\<forall>j<length sections.
               block_profile (content (sections ! j))
                 (- (- int (length (content (sections ! j))) div block_size)) (series ! j)"
    by blast
  have "section_ent_line (s # sections) block_size = Some (Inr (samples # series))"
    by (simp add: s(1) r(1))
  moreover have "\<forall>j<length (s # sections).
               block_profile (content ((s # sections) ! j))
                 (- (- int (length (content ((s # sections) ! j))) div block_size))
                 ((samples # series) ! j)"
  proof (intro allI impI)
    fix j assume "j < length (s # sections)"
    then show "block_profile (content ((s # sections) ! j))
                 (- (- int (length (content ((s # sections) ! j))) div block_size))
                 ((samples # series) ! j)"
      using s(2) r(3) by (cases j) simp_all
  qed
  ultimately show ?case using r(2) by (intro exI [of _ "samples # series"]) simp
qed

text \<open>
  C4: in \<open>section_ent_line\<close> with a block count \<open>block_size \<ge> 1\<close> the loop of every
  section returns, and with \<open>block_len = ceil(len(content) / block_size)\<close> its samples
  are the block profile of the content: the block of index \<open>i\<close> (from 1) starts at the
  previous block's end plus one (the first at 0) and ends at \<open>i * block_len\<close>; it holds
  the bytes at the indices from its start up to, and not including, its end
  (\<open>block_bytes\<close>, by \<open>take\<close> and \<open>drop\<close>), so the byte at the index of its end is
  skipped; there is a sample for exactly the blocks whose start is at most the length
  of the content, so the loop ends exactly when the next start is beyond it; and each
  sample is the median of the raw entropy of the bytes of its block and that of the
  block before, 0 before the first block of each section.
\<close>

theorem section_ent_line_blocks:
  "1 \<le> block_size \<Longrightarrow>
     \<exists>series. section_ent_line sections block_size = Some (Inr series) \<and>
        length series = length sections \<and>
        (\<forall>j<length sections.
            block_profile (content (sections ! j))
              \<lceil>real (length (content (sections ! j))) / real_of_int block_size\<rceil> (series ! j))"
proof -
  assume B: "1 \<le> block_size"
  have c: "\<lceil>real L / real_of_int block_size\<rceil> = - (- int L div block_size)" for L
    using ceiling_divide_eq_div [of "int L" block_size, where ?'a = real] by simp
  from section_ent_line_profile [OF B, of sections] show ?thesis unfolding c .
qed

lemma shannon_ent_Nil: "shannon_ent ([] :: byte list) (Some 256) = 0"
  by (simp add: shannon_ent_def np_unique_def)

text \<open>
  A section of five bytes with three blocks: \<open>block_len\<close> is 2, the blocks hold the
  bytes \<open>00 01\<close>, \<open>07\<close> and nothing, and the bytes at the indices 2 and 4 are in no
  block.
\<close>

lemma section_ent_line_five_bytes:
  "section_ent_line [\<lparr>name = ''.text'', content = [0, 1, 9, 7, 7]\<rparr>] 3
     = Some (Inr [[1 / 16, 1 / 16, 0]])"
proof -
  have s0: "py_slice [0, 1, 9, 7, 7 :: byte] 0 2 = [0, 1]"
    and s1: "py_slice [0, 1, 9, 7, 7 :: byte] 3 4 = [7]"
    and s2: "py_slice [0, 1, 9, 7, 7 :: byte] 5 6 = []"
    by (simp_all add: py_slice_def)
  have "section_ent_loop [0, 1, 9, 7, 7] 2 1 0 0 [] = Some (Inr [1 / 16, 1 / 16, 0])"
    by (simp add: loop_step loop_stop s0 s1 s2 shannon_ent_two_bytes shannon_ent_single
        shannon_ent_Nil)
  then show ?thesis by (simp add: section_ent_samples_def)
qed

theorem section_ent_line_blocks_witness:
  "(1 :: int) \<le> 3 \<and>
   section_ent_line [\<lparr>name = ''.text'', content = [0, 1, 9, 7, 7]\<rparr>] 3
     = Some (Inr [[1 / 16, 1 / 16, 0]]) \<and>
   block_profile [0, 1, 9, 7, 7] 2 [1 / 16, 1 / 16, 0] \<and>
   block_bytes [0, 1, 9, 7, 7] 2 0 = [0, 1] \<and>
   block_bytes [0, 1, 9, 7, 7] 2 1 = [7] \<and>
   block_bytes [0, 1, 9, 7, 7] 2 2 = []"
proof -
  have c: "\<lceil>5 / 3 :: real\<rceil> = 2" by simp
  from section_ent_line_blocks [of 3 "[\<lparr>name = ''.text'', content = [0, 1, 9, 7, 7]\<rparr>]"]
  have "block_profile [0, 1, 9, 7, 7] 2 [1 / 16, 1 / 16, 0]"
    by (auto simp: c section_ent_line_five_bytes simp del: section_ent_line.simps)
  moreover have "block_bytes [0, 1, 9, 7, 7] 2 0 = [0, 1]"
    "block_bytes [0, 1, 9, 7, 7] 2 1 = [7]" "block_bytes [0, 1, 9, 7, 7] 2 2 = []"
    by (simp_all add: block_bytes_def block_start_def block_end_def)
  ultimately show ?thesis by (simp add: section_ent_line_five_bytes del: section_ent_line.simps)
qed

section \<open>Entropy of degenerate inputs\<close>

lemma py_slice_Nil: "py_slice [] start stop = []"
  by (simp add: py_slice_def)

lemma section_ent_line_empty_section:
  "section_ent_line [\<lparr>name = s_name, content = []\<rparr>] 100 = Some (Inr [[0]])"
proof -
  have "section_ent_loop [] 0 1 0 0 [] = Some (Inr [0])"
    by (simp add: loop_step loop_stop py_slice_Nil shannon_ent_def np_unique_def)
  then show ?thesis by (simp add: section_ent_samples_def)
qed

text \<open>
  C3: \<open>shannon_ent\<close> applied to an empty byte sequence returns 0. The function is total
  in the model as it is in the program: numpy raises nowhere in it, and on an empty
  array nothing is divided. An empty section is no error for the profiler either: with
  the default block count its loop runs once, on the empty block, and the sample is 0.
\<close>

theorem shannon_ent_empty:
  "shannon_ent ([] :: byte list) (Some 256) = 0 \<and>
   section_ent_line [\<lparr>name = s_name, content = []\<rparr>] 100 = Some (Inr [[0]])"
proof
  show "shannon_ent ([] :: byte list) (Some 256) = 0"
    by (simp add: shannon_ent_def np_unique_def)
  show "section_ent_line [\<lparr>name = s_name, content = []\<rparr>] 100 = Some (Inr [[0]])"
    by (rule section_ent_line_empty_section)
qed

section \<open>The exact entropy under majorisation\<close>

text \<open>
  The lemmas of this section are about the entropy formula over the reals. The program
  evaluates the formula in 64-bit floating point and adds the terms in the order of the
  byte values, so two sequences with the same counts in another order can differ in
  the last place; what is shown here is a property of the exact value only.
\<close>

lemma plogp_zero [simp]: "plogp n 0 = 0"
  by (simp add: plogp_def)

lemma plogp_tangent:
  assumes n: "0 < n"
  shows "slope n a * (real b - real a) \<le> plogp n b - plogp n a"
proof -
  have rn: "0 < real n" using n by simp
  consider "a = 0" "b = 0" | "a = 0" "0 < b" | "0 < a" "b = 0" | "0 < a" "0 < b" by fastforce
  then show ?thesis
  proof cases
    case 1
    then show ?thesis by simp
  next
    case 2
    have "0 \<le> ln (real b)" using 2 by simp
    then have nonneg: "0 \<le> (real b / real n) * ln (real b)" using rn by simp
    have "ln (real b / real n) = ln (real b) - ln (real n)"
      using 2 rn by (simp add: ln_div)
    then have "plogp n b = (real b / real n) * (ln (real b) - ln (real n))"
      by (simp only: plogp_def)
    then have "plogp n b = (real b / real n) * ln (real b) - (real b / real n) * ln (real n)"
      by (simp only: right_diff_distrib)
    moreover have "slope n a * (real b - real a) = - ((real b / real n) * ln (real n))"
      using 2 by (simp add: slope_def)
    moreover have "plogp n a = 0" using 2 by simp
    ultimately show ?thesis using nonneg by linarith
  next
    case 3
    have "0 \<le> real a / real n" by simp
    then show ?thesis using 3 rn by (simp add: slope_def plogp_def field_simps)
  next
    case 4
    define p q where "p = real a / real n" and "q = real b / real n"
    have p: "0 < p" and q: "0 < q" using 4 rn by (simp_all add: p_def q_def)
    have "ln (p / q) \<le> p / q - 1" using p q by (intro ln_le_minus_one) simp
    then have "q * ln (p / q) \<le> q * (p / q - 1)" using q by (simp add: mult_left_mono)
    also have "\<dots> = p - q" using q by (simp add: field_simps)
    finally have "q * (ln p - ln q) \<le> p - q" using p q by (simp add: ln_div)
    then have "(ln p + 1) * (q - p) \<le> q * ln q - p * ln p" by (simp add: algebra_simps)
    moreover have "slope n a * (real b - real a) = (ln p + 1) * (q - p)"
      using 4 rn by (simp add: slope_def p_def q_def field_simps)
    ultimately show ?thesis by (simp add: plogp_def p_def q_def)
  qed
qed

lemma slope_mono:
  assumes n: "0 < n" and ab: "a \<le> b"
  shows "slope n a \<le> slope n b"
proof -
  have rn: "0 < real n" using n by simp
  consider "b = 0" | "a = 0" "0 < b" | "0 < a" by fastforce
  then show ?thesis
  proof cases
    case 1
    with ab show ?thesis by simp
  next
    case 2
    have "0 \<le> ln (real b)" using 2 by simp
    moreover have "ln (real b / real n) = ln (real b) - ln (real n)"
      using 2 rn by (simp add: ln_div)
    ultimately have "- ln (real n) \<le> ln (real b / real n) + 1" by simp
    then have "(- ln (real n)) / real n \<le> (ln (real b / real n) + 1) / real n"
      using rn by (intro divide_right_mono) simp_all
    with 2 show ?thesis by (simp add: slope_def)
  next
    case 3
    with ab have b: "0 < b" by simp
    have "real a / real n \<le> real b / real n" using ab rn by (simp add: divide_right_mono)
    moreover have "0 < real a / real n" using 3 rn by simp
    ultimately have "ln (real a / real n) \<le> ln (real b / real n)" by simp
    then have "(ln (real a / real n) + 1) / real n \<le> (ln (real b / real n) + 1) / real n"
      using rn by (simp add: divide_right_mono)
    with 3 b show ?thesis by (simp add: slope_def)
  qed
qed

text \<open>Summation by parts, as an inequality.\<close>

lemma abel_inequality:
  fixes c e :: "nat \<Rightarrow> real"
  assumes "\<forall>i. Suc i < n \<longrightarrow> c (Suc i) \<le> c i"
    and "\<forall>k\<le>n. 0 \<le> (\<Sum>i<k. e i)"
  shows "c (n - 1) * (\<Sum>i<n. e i) \<le> (\<Sum>i<n. c i * e i)"
  using assms
proof (induction n)
  case 0
  show ?case by simp
next
  case (Suc n)
  show ?case
  proof (cases "n = 0")
    case True
    then show ?thesis by simp
  next
    case False
    then obtain m where m: "n = Suc m" by (cases n) auto
    have ih: "c (n - 1) * (\<Sum>i<n. e i) \<le> (\<Sum>i<n. c i * e i)"
      using Suc.prems by (intro Suc.IH) auto
    have dec: "c n \<le> c (n - 1)" using Suc.prems(1) m by auto
    have nn: "0 \<le> (\<Sum>i<n. e i)" using Suc.prems(2) by auto
    have "c n * (\<Sum>i<n. e i) \<le> c (n - 1) * (\<Sum>i<n. e i)"
      using dec nn by (rule mult_right_mono)
    with ih have "c n * (\<Sum>i<n. e i) + c n * e n \<le> (\<Sum>i<n. c i * e i) + c n * e n"
      by simp
    then show ?thesis by (simp add: algebra_simps)
  qed
qed

lemma karamata_plogp:
  fixes a b :: "nat \<Rightarrow> nat"
  assumes n: "0 < n"
    and dec: "\<forall>i. Suc i < m \<longrightarrow> a (Suc i) \<le> a i"
    and maj: "\<forall>k\<le>m. (\<Sum>i<k. a i) \<le> (\<Sum>i<k. b i)"
    and tot: "(\<Sum>i<m. a i) = (\<Sum>i<m. b i)"
  shows "(\<Sum>i<m. plogp n (a i)) \<le> (\<Sum>i<m. plogp n (b i))"
proof -
  define c where "c = (\<lambda>i. slope n (a i))"
  define e where "e = (\<lambda>i. real (b i) - real (a i))"
  have part: "(\<Sum>i<k. e i) = real (\<Sum>i<k. b i) - real (\<Sum>i<k. a i)" for k
    by (simp add: e_def sum_subtractf)
  have "\<forall>i. Suc i < m \<longrightarrow> c (Suc i) \<le> c i"
    using dec by (auto simp: c_def intro: slope_mono [OF n])
  moreover have "\<forall>k\<le>m. 0 \<le> (\<Sum>i<k. e i)"
  proof (intro allI impI)
    fix k assume "k \<le> m"
    with maj have "(\<Sum>i<k. a i) \<le> (\<Sum>i<k. b i)" by blast
    then have "real (\<Sum>i<k. a i) \<le> real (\<Sum>i<k. b i)" by (simp only: of_nat_le_iff)
    then show "0 \<le> (\<Sum>i<k. e i)" unfolding part by linarith
  qed
  ultimately have "c (m - 1) * (\<Sum>i<m. e i) \<le> (\<Sum>i<m. c i * e i)"
    by (rule abel_inequality)
  moreover have "(\<Sum>i<m. e i) = 0" unfolding part using tot by (simp only: diff_self)
  ultimately have "0 \<le> (\<Sum>i<m. c i * e i)" by simp
  also have "\<dots> \<le> (\<Sum>i<m. plogp n (b i) - plogp n (a i))"
    unfolding c_def e_def by (intro sum_mono plogp_tangent n)
  finally show ?thesis by (simp add: sum_subtractf)
qed

lemma entropy_all_values:
  fixes xs :: "byte list"
  shows "shannon_ent xs (Some 256) =
           - (\<Sum>v\<in>UNIV. plogp (length xs) (count_list xs v)) / ln 256"
proof -
  have "(\<Sum>v\<in>set xs. plogp (length xs) (count_list xs v)) =
        (\<Sum>v\<in>UNIV. plogp (length xs) (count_list xs v))"
    by (rule sum.mono_neutral_left) (auto simp: count_list_0_iff)
  then show ?thesis by (simp add: shannon_ent_sum)
qed

lemma sum_bytes_as_list:
  fixes f :: "nat \<Rightarrow> real"
  shows "(\<Sum>v\<in>(UNIV :: byte set). f (count_list xs v)) = sum_list (map f (map (Counter xs) [0..255]))"
proof -
  have r: "range (uint :: byte \<Rightarrow> int) = {0..255}"
    by (auto simp: range_uint)
  have "sum_list (map f (map (Counter xs) [0..255])) = (\<Sum>x\<in>{0..255}. f (Counter xs x))"
    by (simp add: comp_def interv_sum_list_conv_sum_set_int)
  also have "\<dots> = (\<Sum>x\<in>range (uint :: byte \<Rightarrow> int). f (Counter xs x))"
    by (simp only: r)
  also have "\<dots> = (\<Sum>v\<in>(UNIV :: byte set). f (Counter xs (uint v)))"
    by (subst sum.reindex) (simp_all add: inj_on_def word_uint_eq_iff)
  finally show ?thesis by (simp add: Counter_uint)
qed

lemma mset_rank_counts: "mset (rank_counts xs) = mset (map (Counter xs) [0..255])"
  by (simp add: rank_counts_def)

lemma sum_list_map_mset_cong:
  fixes f :: "nat \<Rightarrow> real"
  assumes "mset as = mset bs"
  shows "sum_list (map f as) = sum_list (map f bs)"
proof -
  have "sum_list (map f as) = sum_mset (mset (map f as))" by (simp only: sum_mset_sum_list)
  also have "\<dots> = sum_mset (mset (map f bs))" by (simp only: mset_map assms)
  also have "\<dots> = sum_list (map f bs)" by (simp only: sum_mset_sum_list)
  finally show ?thesis .
qed

lemma length_rank_counts: "length (rank_counts xs) = 256"
  by (simp add: rank_counts_def)

lemma sum_list_rank_counts: "sum_list (rank_counts xs) = length xs"
proof -
  have "sum_list (rank_counts xs) = sum_mset (mset (rank_counts xs))"
    by (simp only: sum_mset_sum_list)
  also have "\<dots> = sum_list (map (Counter xs) [0..255])"
    by (simp only: mset_rank_counts sum_mset_sum_list)
  finally show ?thesis by (simp add: sum_Counter_all)
qed

lemma rank_counts_descending:
  "Suc i < 256 \<Longrightarrow> rank_counts xs ! Suc i \<le> rank_counts xs ! i"
proof -
  assume i: "Suc i < 256"
  have "sorted_wrt (\<ge>) (rank_counts xs)"
    unfolding rank_counts_def by (rule sorted_wrt_ge_rev_sort)
  then show ?thesis
    using i by (simp add: sorted_wrt_iff_nth_less length_rank_counts)
qed

lemma sum_list_take_nth:
  fixes as :: "nat list"
  assumes "k \<le> length as"
  shows "sum_list (take k as) = (\<Sum>i<k. as ! i)"
proof -
  have "sum_list (take k as) = (\<Sum>i = 0..<length (take k as). take k as ! i)"
    by (rule sum_list_sum_nth)
  also have "\<dots> = (\<Sum>i<k. as ! i)"
    using assms by (intro sum.cong) (auto simp: min_def)
  finally show ?thesis .
qed

lemma entropy_rank_sum:
  fixes xs :: "byte list"
  shows "shannon_ent xs (Some 256) =
           - (\<Sum>i<256. plogp (length xs) (rank_counts xs ! i)) / ln 256"
proof -
  have "(\<Sum>v\<in>(UNIV :: byte set). plogp (length xs) (count_list xs v))
      = sum_list (map (plogp (length xs)) (map (Counter xs) [0..255]))"
    by (rule sum_bytes_as_list)
  also have "\<dots> = sum_list (map (plogp (length xs)) (rank_counts xs))"
    by (rule sum_list_map_mset_cong) (simp add: mset_rank_counts)
  also have "\<dots> = (\<Sum>i = 0..<length (rank_counts xs). map (plogp (length xs)) (rank_counts xs) ! i)"
    by (subst sum_list_sum_nth) simp
  also have "\<dots> = (\<Sum>i<256. plogp (length xs) (rank_counts xs ! i))"
    by (intro sum.cong) (auto simp: length_rank_counts)
  finally show ?thesis by (simp only: entropy_all_values)
qed

text \<open>
  Over the reals the entropy is monotone under majorisation: the more uniform count
  distribution has the entropy that is not lower.
\<close>

lemma shannon_ent_majorized:
  assumes "majorized_by xs ys"
  shows "shannon_ent ys (Some 256) \<le> shannon_ent xs (Some 256)"
proof (cases "xs = []")
  case True
  with assms have "ys = []" by (simp add: majorized_by_def)
  with True show ?thesis by simp
next
  case False
  define n where "n = length xs"
  define a where "a = (\<lambda>i. rank_counts xs ! i)"
  define b where "b = (\<lambda>i. rank_counts ys ! i)"
  from False have n: "0 < n" by (simp add: n_def)
  from assms have len: "length ys = n" by (simp add: majorized_by_def n_def)
  have dec: "\<forall>i. Suc i < 256 \<longrightarrow> a (Suc i) \<le> a i"
    by (simp add: a_def rank_counts_descending)
  have maj: "\<forall>k\<le>256. (\<Sum>i<k. a i) \<le> (\<Sum>i<k. b i)"
  proof (intro allI impI)
    fix k :: nat assume k: "k \<le> 256"
    then have "sum_list (take k (rank_counts xs)) \<le> sum_list (take k (rank_counts ys))"
      using assms by (simp add: majorized_by_def)
    then show "(\<Sum>i<k. a i) \<le> (\<Sum>i<k. b i)"
      using k by (simp add: sum_list_take_nth length_rank_counts a_def b_def)
  qed
  have tot: "(\<Sum>i<256. a i) = (\<Sum>i<256. b i)"
  proof -
    have t: "(\<Sum>i<256. rank_counts zs ! i) = length zs" for zs
    proof -
      have "sum_list (take 256 (rank_counts zs)) = (\<Sum>i<256. rank_counts zs ! i)"
        by (rule sum_list_take_nth) (simp add: length_rank_counts)
      moreover have "take 256 (rank_counts zs) = rank_counts zs"
        by (simp add: length_rank_counts)
      ultimately show ?thesis by (simp only: sum_list_rank_counts)
    qed
    show ?thesis unfolding a_def b_def t by (simp add: len n_def)
  qed
  have k: "(\<Sum>i<256. plogp n (a i)) \<le> (\<Sum>i<256. plogp n (b i))"
    using n dec maj tot by (rule karamata_plogp)
  have "shannon_ent xs (Some 256) = - (\<Sum>i<256. plogp n (a i)) / ln 256"
    by (simp only: entropy_rank_sum n_def a_def)
  moreover have "shannon_ent ys (Some 256) = - (\<Sum>i<256. plogp n (b i)) / ln 256"
    by (simp only: entropy_rank_sum len b_def)
  moreover have "0 < ln (256 :: real)" by simp
  ultimately show ?thesis using k by (simp add: divide_right_mono)
qed

lemma sum_list_take_le:
  fixes as :: "nat list"
  shows "sum_list (take k as) \<le> sum_list as"
proof -
  have "sum_list as = sum_list (take k as) + sum_list (drop k as)"
    by (simp flip: sum_list_append)
  then show ?thesis by simp
qed

lemma descending_take_ge:
  fixes as :: "nat list"
  assumes "sorted_wrt (\<ge>) as" "x \<in> set as" "0 < k"
  shows "x \<le> sum_list (take k as)"
proof (cases as)
  case Nil
  with assms show ?thesis by simp
next
  case (Cons a rest)
  with assms(1,2) have "x \<le> a" by auto
  moreover obtain j where "k = Suc j" using assms(3) by (cases k) auto
  ultimately show ?thesis using Cons by simp
qed

lemma count_list_replicate_self: "count_list (replicate n b) b = n"
  by (induction n) auto

lemma majorized_by_constant: "majorized_by xs (replicate (length xs) b)"
proof -
  let ?ys = "replicate (length xs) b"
  have "sum_list (take k (rank_counts xs)) \<le> sum_list (take k (rank_counts ?ys))" for k
  proof (cases "k = 0")
    case True
    then show ?thesis by simp
  next
    case False
    have "sum_list (take k (rank_counts xs)) \<le> length xs"
      using sum_list_take_le [of k "rank_counts xs"] by (simp only: sum_list_rank_counts)
    moreover have "length xs \<le> sum_list (take k (rank_counts ?ys))"
    proof (rule descending_take_ge)
      show "sorted_wrt (\<ge>) (rank_counts ?ys)"
        unfolding rank_counts_def by (rule sorted_wrt_ge_rev_sort)
      have "count_list ?ys b = length xs" by (rule count_list_replicate_self)
      then have "Counter ?ys (uint b) = length xs" by (simp only: Counter_uint)
      moreover have "uint b \<in> {0..255}"
        using uint_lt2p [of b] by simp
      ultimately have "length xs \<in> set (map (Counter ?ys) [0..255])" by force
      then show "length xs \<in> set (rank_counts ?ys)" by (simp add: rank_counts_def)
      show "0 < k" using False by simp
    qed
    ultimately show ?thesis by simp
  qed
  then show ?thesis by (simp add: majorized_by_def)
qed

lemma rank_counts_bin_hist: "snd (bin_hist xs False True) = Some (rank_counts xs)"
  by (simp add: bin_hist_rows rank_counts_def)

end
